theory Spec2Isabelle
  imports Complex_Main "HOL-Library.AList"
begin

section \<open>Exceptions and Python dictionaries\<close>

text \<open>
  The exceptions that occur in \<^verbatim>\<open>queue_consumer.py\<close>. \<open>RuntimeError\<close> stands for any
  exception class derived from \<^verbatim>\<open>Exception\<close> that an external callable (decoder, grouping
  function, processing callback, commit function) may raise; \<open>SystemExit\<close> stands for the
  exceptions that derive from \<^verbatim>\<open>BaseException\<close> only, which \<^verbatim>\<open>except Exception\<close> does not
  catch.
\<close>

datatype py_exception =
    UnassignedPartitionError
  | KeyError
  | AssertionError
  | MessageRejected
  | ZeroDivisionError
  | IndexError
  | ShutDown
  | RuntimeError
  | SystemExit

definition isinstance_Exception :: "py_exception \<Rightarrow> bool" where
  "isinstance_Exception e = (e \<noteq> SystemExit)"

text \<open>
  A Python \<^verbatim>\<open>dict\<close> keeps its keys in insertion order and \<^verbatim>\<open>d[k] = v\<close> keeps the place of
  a key that is already there: an association list under \<open>AList.update\<close>. \<open>dict_get\<close> is
  \<^verbatim>\<open>d.get(k, default)\<close>. Reading \<^verbatim>\<open>d[k]\<close> from a \<^verbatim>\<open>defaultdict(set)\<close> returns the empty set
  for a missing key and stores it under the key: \<open>defaultdict_touch\<close> is that store.
\<close>

definition dict_get :: "('k \<times> 'v) list \<Rightarrow> 'k \<Rightarrow> 'v \<Rightarrow> 'v" where
  "dict_get d k dflt = (case map_of d k of None \<Rightarrow> dflt | Some v \<Rightarrow> v)"

definition defaultdict_touch :: "('k \<times> 'v set) list \<Rightarrow> 'k \<Rightarrow> ('k \<times> 'v set) list" where
  "defaultdict_touch d k = (case map_of d k of None \<Rightarrow> AList.update k {} d | Some v \<Rightarrow> d)"

section \<open>OffsetTracker\<close>

text \<open>
  The four dictionaries of \<^verbatim>\<open>OffsetTracker\<close>. Of \<open>partition_locks\<close> only the key set is
  kept: the code tests membership and looks a lock up, and in a run where every call
  finishes before the next starts each lock is free when a call begins.
\<close>

record 'p OffsetTracker =
  all_offsets :: "('p \<times> int set) list"
  outstanding :: "('p \<times> int set) list"
  last_committed :: "('p \<times> int) list"
  partition_locks :: "'p set"

definition OffsetTracker_init :: "'p OffsetTracker" where
  "OffsetTracker_init =
     \<lparr>all_offsets = [], outstanding = [], last_committed = [], partition_locks = {}\<rparr>"

text \<open>\<^verbatim>\<open>add_offset\<close> raises before it changes anything, so the error carries no state.\<close>

definition add_offset :: "'p OffsetTracker \<Rightarrow> 'p \<Rightarrow> int \<Rightarrow> py_exception + 'p OffsetTracker" where
  "add_offset s p off =
     (if p \<notin> partition_locks s then Inl UnassignedPartitionError
      else Inr (s\<lparr>all_offsets := AList.update p (insert off (dict_get (all_offsets s) p {})) (all_offsets s),
                  outstanding := AList.update p (insert off (dict_get (outstanding s) p {})) (outstanding s)\<rparr>))"

definition complete_offset :: "'p OffsetTracker \<Rightarrow> 'p \<Rightarrow> int \<Rightarrow> 'p OffsetTracker" where
  "complete_offset s p off =
     (if p \<notin> partition_locks s then s
      else s\<lparr>outstanding := AList.update p (dict_get (outstanding s) p {} - {off}) (outstanding s)\<rparr>)"

text \<open>
  The inner \<^verbatim>\<open>for offset in range(start, max_offset + 1)\<close> loop of
  \<^verbatim>\<open>get_committable_offsets\<close>, over the list of the range; the \<^verbatim>\<open>break\<close> is the branch that
  returns without looking at the rest.
\<close>

fun highest_committable :: "int set \<Rightarrow> int set \<Rightarrow> int \<Rightarrow> int list \<Rightarrow> int" where
  "highest_committable all_offs outst hc [] = hc"
| "highest_committable all_offs outst hc (x # xs) =
     (if x \<in> all_offs \<and> x \<notin> outst then highest_committable all_offs outst x xs else hc)"

text \<open>
  The body of the outer loop once the lock is held and \<open>all_offsets[partition]\<close> is not
  empty: the value of \<open>highest_committable\<close> when the inner loop ends.
\<close>

definition partition_committable :: "int set \<Rightarrow> int set \<Rightarrow> int \<Rightarrow> int" where
  "partition_committable all_offs outst lc =
     (let min_offset = Min all_offs;
          max_offset = Max all_offs;
          start = max (lc + 1) min_offset
      in highest_committable all_offs outst lc [start..max_offset])"

text \<open>
  The outer loop over \<^verbatim>\<open>list(self.all_offsets.keys())\<close>. The lock lookup raises
  \<open>KeyError\<close> for a key without a lock; by then earlier rounds may have stored empty sets
  in \<open>outstanding\<close>, so the state is returned beside the result.
\<close>

fun committable_loop ::
  "'p list \<Rightarrow> 'p OffsetTracker \<Rightarrow> ('p \<times> int) list \<Rightarrow>
     'p OffsetTracker \<times> (py_exception + ('p \<times> int) list)" where
  "committable_loop [] s committable = (s, Inr committable)"
| "committable_loop (p # ps) s committable =
     (if p \<notin> partition_locks s then (s, Inl KeyError)
      else let all_offs = dict_get (all_offsets s) p {} in
        if all_offs = {} then committable_loop ps s committable
        else let s' = s\<lparr>outstanding := defaultdict_touch (outstanding s) p\<rparr>;
                 outst = dict_get (outstanding s') p {};
                 lc = dict_get (last_committed s') p (- 1);
                 hc = partition_committable all_offs outst lc
             in committable_loop ps s'
                  (if hc > lc then AList.update p hc committable else committable))"

definition get_committable_offsets ::
  "'p OffsetTracker \<Rightarrow> 'p OffsetTracker \<times> (py_exception + ('p \<times> int) list)" where
  "get_committable_offsets s = committable_loop (map fst (all_offsets s)) s []"

definition mark_committed :: "'p OffsetTracker \<Rightarrow> 'p \<Rightarrow> int \<Rightarrow> py_exception + 'p OffsetTracker" where
  "mark_committed s p off =
     (if p \<notin> partition_locks s then Inl KeyError
      else Inr (s\<lparr>last_committed := AList.update p off (last_committed s),
                  all_offsets := AList.update p
                    (Set.filter (\<lambda>x. x > off) (dict_get (all_offsets s) p {})) (all_offsets s)\<rparr>))"

definition clear :: "'p OffsetTracker \<Rightarrow> 'p OffsetTracker" where
  "clear s = s\<lparr>all_offsets := [], outstanding := [], last_committed := [], partition_locks := {}\<rparr>"

definition update_assignments :: "'p OffsetTracker \<Rightarrow> 'p set \<Rightarrow> 'p OffsetTracker" where
  "update_assignments s partitions = (clear s)\<lparr>partition_locks := partitions\<rparr>"

text \<open>
  A call of the tracker's interface, and the state it leaves behind. A call that raises
  leaves the state it had reached; the caller goes on with it.
\<close>

datatype 'p tracker_call =
    AddOffset 'p int
  | CompleteOffset 'p int
  | GetCommittableOffsets
  | MarkCommitted 'p int
  | UpdateAssignments "'p set"
  | Clear

fun after_call :: "'p OffsetTracker \<Rightarrow> 'p tracker_call \<Rightarrow> 'p OffsetTracker" where
  "after_call s (AddOffset p off) = (case add_offset s p off of Inl e \<Rightarrow> s | Inr s' \<Rightarrow> s')"
| "after_call s (CompleteOffset p off) = complete_offset s p off"
| "after_call s GetCommittableOffsets = fst (get_committable_offsets s)"
| "after_call s (MarkCommitted p off) = (case mark_committed s p off of Inl e \<Rightarrow> s | Inr s' \<Rightarrow> s')"
| "after_call s (UpdateAssignments partitions) = update_assignments s partitions"
| "after_call s Clear = clear s"

definition after_calls :: "'p OffsetTracker \<Rightarrow> 'p tracker_call list \<Rightarrow> 'p OffsetTracker" where
  "after_calls s cs = foldl after_call s cs"

text \<open>The sets the specification calls admitted, outstanding and lastCheckpoint.\<close>

definition admitted :: "'p OffsetTracker \<Rightarrow> 'p \<Rightarrow> int set" where
  "admitted s p = dict_get (all_offsets s) p {}"

definition outstanding_of :: "'p OffsetTracker \<Rightarrow> 'p \<Rightarrow> int set" where
  "outstanding_of s p = dict_get (outstanding s) p {}"

definition lastCheckpoint :: "'p OffsetTracker \<Rightarrow> 'p \<Rightarrow> int" where
  "lastCheckpoint s p = dict_get (last_committed s) p (- 1)"

section \<open>Queues, work items and the pool\<close>

text \<open>
  \<^verbatim>\<open>arroyo.types\<close> is a library outside the repository: a message carries a payload and a
  value that is a \<^verbatim>\<open>BrokerValue\<close> (with partition and offset) or not.
\<close>

datatype 'p BaseValue = BrokerValue 'p int | Value

record ('a, 'p) Message =
  payload :: 'a
  msg_value :: "'p BaseValue"

record ('p, 't, 'a) WorkItem =
  partition :: 'p
  offset :: int
  result :: 't
  message :: "('a, 'p) Message"

text \<open>
  A \<^verbatim>\<open>queue.Queue\<close>: its items, oldest first, and whether \<^verbatim>\<open>shutdown()\<close> was called on it.
\<close>

record 'x Queue =
  queue_items :: "'x list"
  is_shutdown :: bool

definition Queue_init :: "'x Queue" where
  "Queue_init = \<lparr>queue_items = [], is_shutdown = False\<rparr>"

definition qsize :: "'x Queue \<Rightarrow> nat" where
  "qsize q = length (queue_items q)"

text \<open>\<^verbatim>\<open>put\<close> raises \<^verbatim>\<open>queue.ShutDown\<close> on a queue that was shut down.\<close>

definition put :: "'x Queue \<Rightarrow> 'x \<Rightarrow> py_exception + 'x Queue" where
  "put q x = (if is_shutdown q then Inl ShutDown
              else Inr (q\<lparr>queue_items := queue_items q @ [x]\<rparr>))"

text \<open>
  The pool. \<open>result_processor\<close> and \<open>commit_function\<close> are external callables: what is
  kept of a call is whether it returned (\<open>None\<close>) or which exception it raised. The
  workers and the commit thread are the functions \<open>run\<close> and \<open>commit_loop_iteration\<close>
  below, applied to the pool's state.
\<close>

record ('p, 't, 'a) FixedQueuePool =
  result_processor :: "string \<Rightarrow> 't \<Rightarrow> py_exception option"
  pool_identifier :: string
  num_queues :: int
  offset_tracker :: "'p OffsetTracker"
  queues :: "('p, 't, 'a) WorkItem Queue list"
  commit_function :: "(('p \<times> int) list \<Rightarrow> py_exception option) option"

definition FixedQueuePool_init ::
  "(string \<Rightarrow> 't \<Rightarrow> py_exception option) \<Rightarrow> string \<Rightarrow> int \<Rightarrow> ('p, 't, 'a) FixedQueuePool" where
  "FixedQueuePool_init rp ident n =
     \<lparr>result_processor = rp, pool_identifier = ident, num_queues = n,
      offset_tracker = OffsetTracker_init,
      queues = replicate (nat n) Queue_init,
      commit_function = None\<rparr>"

text \<open>
  \<^verbatim>\<open>hash(group_key) % self.num_queues\<close>: Python's \<^verbatim>\<open>%\<close> takes the sign of the divisor, as
  \<open>mod\<close> on \<open>int\<close> does, and raises for a zero divisor. The built-in \<^verbatim>\<open>hash\<close> is a parameter.
\<close>

definition get_queue_for_group ::
  "(string \<Rightarrow> int) \<Rightarrow> ('p, 't, 'a) FixedQueuePool \<Rightarrow> string \<Rightarrow> py_exception + int" where
  "get_queue_for_group hash pool group_key =
     (if num_queues pool = 0 then Inl ZeroDivisionError
      else Inr (hash group_key mod num_queues pool))"

text \<open>List indexing as Python does it: a negative index counts from the end.\<close>

definition list_index :: "'x list \<Rightarrow> int \<Rightarrow> py_exception + nat" where
  "list_index xs i =
     (if 0 \<le> i \<and> i < int (length xs) then Inr (nat i)
      else if i < 0 \<and> - int (length xs) \<le> i then Inr (nat (int (length xs) + i))
      else Inl IndexError)"

text \<open>
  \<^verbatim>\<open>FixedQueuePool.submit\<close>. The result is the pool as the call leaves it and the exception
  that leaves the call, if any: \<^verbatim>\<open>add_offset\<close> has already run when the lane lookup or
  \<^verbatim>\<open>put\<close> raises.
\<close>

definition FixedQueuePool_submit ::
  "(string \<Rightarrow> int) \<Rightarrow> ('p, 't, 'a) FixedQueuePool \<Rightarrow> string \<Rightarrow> ('p, 't, 'a) WorkItem \<Rightarrow>
     ('p, 't, 'a) FixedQueuePool \<times> py_exception option" where
  "FixedQueuePool_submit hash pool group_key work_item =
     (case add_offset (offset_tracker pool) (partition work_item) (offset work_item) of
        Inl e \<Rightarrow> (if e = UnassignedPartitionError then (pool, None) else (pool, Some e))
      | Inr tr \<Rightarrow>
          let pool1 = pool\<lparr>offset_tracker := tr\<rparr> in
          (case get_queue_for_group hash pool1 group_key of
             Inl e \<Rightarrow> (pool1, Some e)
           | Inr queue_index \<Rightarrow>
               (case list_index (queues pool1) queue_index of
                  Inl e \<Rightarrow> (pool1, Some e)
                | Inr i \<Rightarrow>
                    (case put (queues pool1 ! i) work_item of
                       Inl e \<Rightarrow> (pool1, Some e)
                     | Inr q \<Rightarrow> (pool1\<lparr>queues := (queues pool1)[i := q]\<rparr>, None)))))"

definition get_stats :: "('p, 't, 'a) FixedQueuePool \<Rightarrow> nat list \<times> nat" where
  "get_stats pool = (let queue_depths = map qsize (queues pool) in (queue_depths, sum_list queue_depths))"

definition FixedQueuePool_update_assignments ::
  "('p, 't, 'a) FixedQueuePool \<Rightarrow> 'p set \<Rightarrow> (('p \<times> int) list \<Rightarrow> py_exception option) \<Rightarrow>
     ('p, 't, 'a) FixedQueuePool" where
  "FixedQueuePool_update_assignments pool partitions cf =
     pool\<lparr>offset_tracker := update_assignments (offset_tracker pool) partitions,
          commit_function := Some cf\<rparr>"

section \<open>The lane worker\<close>

text \<open>
  What a worker does, in order: it takes an item from its queue, calls the processing
  callback, logs an exception it caught, calls \<^verbatim>\<open>complete_offset\<close>.
\<close>

datatype ('p, 't) worker_event =
    Dequeued 'p int
  | Processed 't
  | LoggedException
  | CompleteOffsetCalled 'p int

text \<open>
  How \<^verbatim>\<open>run\<close> ends in a run with no other thread: \<open>Waiting\<close> in \<^verbatim>\<open>get()\<close> on an empty queue,
  \<open>Stopped\<close> when the loop is left (the \<^verbatim>\<open>shutdown\<close> flag, or \<^verbatim>\<open>ShutDown\<close> from the queue), or
  \<open>Died\<close> with the exception that left \<^verbatim>\<open>run\<close>.
\<close>

datatype worker_exit = Waiting | Stopped | Died py_exception

record ('p, 't, 'a) OrderedQueueWorker =
  worker_id :: nat
  work_queue :: "('p, 't, 'a) WorkItem Queue"
  shutdown :: bool

text \<open>
  The \<^verbatim>\<open>while not self.shutdown\<close> loop over the items the queue holds. \<^verbatim>\<open>except Exception\<close>
  catches (and logs) an exception of the callback only if it is an \<^verbatim>\<open>Exception\<close>; the
  \<^verbatim>\<open>finally\<close> block runs in every case; an exception that was not caught leaves \<^verbatim>\<open>run\<close>
  after it. The arguments are the callback, the identifier, the \<^verbatim>\<open>shutdown\<close> flag,
  whether the queue was shut down, the queued items and the tracker.
\<close>

fun run_loop ::
  "(string \<Rightarrow> 't \<Rightarrow> py_exception option) \<Rightarrow> string \<Rightarrow> bool \<Rightarrow> bool \<Rightarrow>
     ('p, 't, 'a) WorkItem list \<Rightarrow> 'p OffsetTracker \<Rightarrow>
     ('p, 't) worker_event list \<times> ('p, 't, 'a) WorkItem list \<times> 'p OffsetTracker \<times> worker_exit" where
  "run_loop rp ident sd shut [] tr =
     ([], [], tr, if sd \<or> shut then Stopped else Waiting)"
| "run_loop rp ident sd shut (work_item # rest) tr =
     (if sd then ([], work_item # rest, tr, Stopped)
      else
        let outcome = rp ident (result work_item);
            caught = (case outcome of None \<Rightarrow> False | Some e \<Rightarrow> isinstance_Exception e);
            tr' = complete_offset tr (partition work_item) (offset work_item);
            evs = [Dequeued (partition work_item) (offset work_item), Processed (result work_item)]
                  @ (if caught then [LoggedException] else [])
                  @ [CompleteOffsetCalled (partition work_item) (offset work_item)]
        in case outcome of
             Some e \<Rightarrow>
               if isinstance_Exception e
               then (case run_loop rp ident sd shut rest tr' of
                       (evs', q, tr'', ex) \<Rightarrow> (evs @ evs', q, tr'', ex))
               else (evs, rest, tr', Died e)
           | None \<Rightarrow>
               (case run_loop rp ident sd shut rest tr' of
                  (evs', q, tr'', ex) \<Rightarrow> (evs @ evs', q, tr'', ex)))"

definition run ::
  "(string \<Rightarrow> 't \<Rightarrow> py_exception option) \<Rightarrow> string \<Rightarrow> ('p, 't, 'a) OrderedQueueWorker \<Rightarrow>
     'p OffsetTracker \<Rightarrow>
     ('p, 't) worker_event list \<times> ('p, 't, 'a) OrderedQueueWorker \<times> 'p OffsetTracker \<times> worker_exit" where
  "run rp ident w tr =
     (case run_loop rp ident (shutdown w) (is_shutdown (work_queue w)) (queue_items (work_queue w)) tr of
        (evs, q, tr', ex) \<Rightarrow> (evs, w\<lparr>work_queue := (work_queue w)\<lparr>queue_items := q\<rparr>\<rparr>, tr', ex))"

section \<open>The commit loop\<close>

text \<open>
  \<^verbatim>\<open>for partition, offset in committable.items(): mark_committed(partition, offset)\<close>, with
  the exception that ends it, if any.
\<close>

fun mark_all :: "'p OffsetTracker \<Rightarrow> ('p \<times> int) list \<Rightarrow> 'p OffsetTracker \<times> py_exception option" where
  "mark_all s [] = (s, None)"
| "mark_all s ((p, off) # rest) =
     (case mark_committed s p off of Inl e \<Rightarrow> (s, Some e) | Inr s' \<Rightarrow> mark_all s' rest)"

text \<open>
  One round of \<^verbatim>\<open>_commit_loop\<close> after the wait, when the shutdown event is not set.
  \<^verbatim>\<open>except Exception\<close> logs an \<^verbatim>\<open>Exception\<close> and the loop goes on; any other exception leaves
  the loop and is the second component.
\<close>

definition commit_loop_except ::
  "('p, 't, 'a) FixedQueuePool \<Rightarrow> py_exception \<Rightarrow> ('p, 't, 'a) FixedQueuePool \<times> py_exception option" where
  "commit_loop_except pool e = (pool, if isinstance_Exception e then None else Some e)"

definition commit_loop_iteration ::
  "('p, 't, 'a) FixedQueuePool \<Rightarrow> ('p, 't, 'a) FixedQueuePool \<times> py_exception option" where
  "commit_loop_iteration pool =
     (case get_committable_offsets (offset_tracker pool) of
        (tr, Inl e) \<Rightarrow> commit_loop_except (pool\<lparr>offset_tracker := tr\<rparr>) e
      | (tr, Inr committable) \<Rightarrow>
          let pool1 = pool\<lparr>offset_tracker := tr\<rparr> in
          (case commit_function pool1 of
             None \<Rightarrow> (pool1, None)
           | Some cf \<Rightarrow>
               if committable = [] then (pool1, None)
               else (case cf committable of
                       Some e \<Rightarrow> commit_loop_except pool1 e
                     | None \<Rightarrow>
                         (case mark_all tr committable of
                            (tr', Some e) \<Rightarrow> commit_loop_except (pool1\<lparr>offset_tracker := tr'\<rparr>) e
                          | (tr', None) \<Rightarrow> (pool1\<lparr>offset_tracker := tr'\<rparr>, None)))))"

section \<open>Waiting and flushing\<close>

text \<open>
  \<^verbatim>\<open>wait_until_empty\<close> reads the clock once for \<^verbatim>\<open>start_time\<close> and once per round. The clock
  is the list of the values these \<^verbatim>\<open>time.time()\<close> calls return; when the list ends before
  the loop does, the result is \<open>None\<close>. No other thread changes the queues during the
  wait.
\<close>

fun wait_loop :: "real \<Rightarrow> real \<Rightarrow> nat \<Rightarrow> real list \<Rightarrow> bool option" where
  "wait_loop start_time timeout total_items [] = None"
| "wait_loop start_time timeout total_items (t # ts) =
     (if t - start_time < timeout
      then (if total_items = 0 then Some True else wait_loop start_time timeout total_items ts)
      else Some False)"

definition wait_until_empty :: "real list \<Rightarrow> ('p, 't, 'a) FixedQueuePool \<Rightarrow> real \<Rightarrow> bool option" where
  "wait_until_empty clock pool timeout =
     (case clock of
        [] \<Rightarrow> None
      | start_time # ts \<Rightarrow> wait_loop start_time timeout (snd (get_stats pool)) ts)"

text \<open>\<^verbatim>\<open>while not q.empty(): q.get_nowait(); cleared_count += 1\<close> for one queue, then for all.\<close>

fun drain :: "'x list \<Rightarrow> nat \<Rightarrow> 'x list \<times> nat" where
  "drain [] cleared_count = ([], cleared_count)"
| "drain (x # xs) cleared_count = drain xs (cleared_count + 1)"

fun clear_queues :: "'x Queue list \<Rightarrow> nat \<Rightarrow> 'x Queue list \<times> nat" where
  "clear_queues [] cleared_count = ([], cleared_count)"
| "clear_queues (q # qs) cleared_count =
     (case drain (queue_items q) cleared_count of
        (left, c) \<Rightarrow>
          (case clear_queues qs c of (qs', c') \<Rightarrow> (q\<lparr>queue_items := left\<rparr> # qs', c')))"

definition flush ::
  "real list \<Rightarrow> ('p, 't, 'a) FixedQueuePool \<Rightarrow> real option \<Rightarrow>
     (('p, 't, 'a) FixedQueuePool \<times> bool) option" where
  "flush clock pool timeout =
     (case (case timeout of None \<Rightarrow> Some False | Some t \<Rightarrow> wait_until_empty clock pool t) of
        None \<Rightarrow> None
      | Some success \<Rightarrow>
          let pool1 = (if \<not> success then pool\<lparr>queues := fst (clear_queues (queues pool) 0)\<rparr> else pool)
          in Some (pool1\<lparr>offset_tracker := clear (offset_tracker pool1)\<rparr>, success))"

section \<open>SimpleQueueProcessingStrategy\<close>

text \<open>
  The decoder and the grouping function are external callables: a call returns a value
  or raises.
\<close>

record ('p, 't, 'a) SimpleQueueProcessingStrategy =
  queue_pool :: "('p, 't, 'a) FixedQueuePool"
  decoder :: "'a \<Rightarrow> py_exception + 't option"
  grouping_fn :: "'t \<Rightarrow> py_exception + string"
  shutdown_event :: bool

text \<open>
  The \<^verbatim>\<open>except Exception\<close> block of \<^verbatim>\<open>submit\<close>: it runs for an \<^verbatim>\<open>Exception\<close> only, and its own
  \<^verbatim>\<open>add_offset\<close> call stands in no \<^verbatim>\<open>try\<close>.
\<close>

definition submit_except ::
  "('p, 't, 'a) SimpleQueueProcessingStrategy \<Rightarrow> ('a, 'p) Message \<Rightarrow> py_exception \<Rightarrow>
     ('p, 't, 'a) SimpleQueueProcessingStrategy \<times> py_exception option" where
  "submit_except st msg e =
     (if \<not> isinstance_Exception e then (st, Some e)
      else case msg_value msg of
             Value \<Rightarrow> (st, None)
           | BrokerValue p off \<Rightarrow>
               (case add_offset (offset_tracker (queue_pool st)) p off of
                  Inl e' \<Rightarrow> (st, Some e')
                | Inr tr \<Rightarrow>
                    (st\<lparr>queue_pool := (queue_pool st)\<lparr>offset_tracker := complete_offset tr p off\<rparr>\<rparr>, None)))"

definition submit ::
  "(string \<Rightarrow> int) \<Rightarrow> ('p, 't, 'a) SimpleQueueProcessingStrategy \<Rightarrow> ('a, 'p) Message \<Rightarrow>
     ('p, 't, 'a) SimpleQueueProcessingStrategy \<times> py_exception option" where
  "submit hash st msg =
     (if shutdown_event st then (st, Some MessageRejected)
      else case decoder st (payload msg) of
             Inl e \<Rightarrow> submit_except st msg e
           | Inr res \<Rightarrow>
               (case msg_value msg of
                  Value \<Rightarrow> submit_except st msg AssertionError
                | BrokerValue p off \<Rightarrow>
                    (case res of
                       None \<Rightarrow>
                         (case add_offset (offset_tracker (queue_pool st)) p off of
                            Inl e \<Rightarrow> (if e = UnassignedPartitionError then (st, None)
                                      else submit_except st msg e)
                          | Inr tr \<Rightarrow>
                              (st\<lparr>queue_pool :=
                                    (queue_pool st)\<lparr>offset_tracker := complete_offset tr p off\<rparr>\<rparr>, None))
                     | Some r \<Rightarrow>
                         (case grouping_fn st r of
                            Inl e \<Rightarrow> submit_except st msg e
                          | Inr group_key \<Rightarrow>
                              (case FixedQueuePool_submit hash (queue_pool st) group_key
                                      \<lparr>partition = p, offset = off, result = r, message = msg\<rparr> of
                                 (pool, Some e) \<Rightarrow> submit_except (st\<lparr>queue_pool := pool\<rparr>) msg e
                               | (pool, None) \<Rightarrow> (st\<lparr>queue_pool := pool\<rparr>, None))))))"

section \<open>Notions the properties are stated with\<close>

text \<open>
  The value \<^verbatim>\<open>get_committable_offsets\<close> has for one partition when it returns: the body of
  the loop for this partition, read from the state the call starts in.
\<close>

definition committable_of :: "'p OffsetTracker \<Rightarrow> 'p \<Rightarrow> int option" where
  "committable_of s p =
     (if admitted s p = {} then None
      else let hc = partition_committable (admitted s p) (outstanding_of s p) (lastCheckpoint s p)
           in if hc > lastCheckpoint s p then Some hc else None)"

text \<open>
  Along a list of calls: each \<^verbatim>\<open>mark_committed(p, o)\<close> is made in a state where no offset
  up to \<open>o\<close> is outstanding for \<open>p\<close>.
\<close>

fun mark_safe :: "'p OffsetTracker \<Rightarrow> 'p tracker_call \<Rightarrow> bool" where
  "mark_safe s (MarkCommitted p off) = (\<forall>x \<in> outstanding_of s p. off < x)"
| "mark_safe s c = True"

fun marks_safe :: "'p OffsetTracker \<Rightarrow> 'p tracker_call list \<Rightarrow> bool" where
  "marks_safe s [] = True"
| "marks_safe s (c # cs) = (mark_safe s c \<and> marks_safe (after_call s c) cs)"

text \<open>
  Along the loop of \<open>mark_all\<close>: each \<^verbatim>\<open>mark_committed(p, o)\<close> it makes has \<open>o\<close> above the
  checkpoint \<open>p\<close> has when the call is made.
\<close>

fun marks_exceed :: "'p OffsetTracker \<Rightarrow> ('p \<times> int) list \<Rightarrow> bool" where
  "marks_exceed s [] = True"
| "marks_exceed s ((p, off) # rest) =
     (lastCheckpoint s p < off \<and>
      (case mark_committed s p off of Inl e \<Rightarrow> True | Inr s' \<Rightarrow> marks_exceed s' rest))"

text \<open>
  What happens to the tracker of a pool under one assignment: the ingress path admits
  an offset, a worker completes one, the commit thread runs a round of its loop.
\<close>

datatype 'p pool_step = Admit 'p int | Complete 'p int | CommitRound

fun after_step :: "('p, 't, 'a) FixedQueuePool \<Rightarrow> 'p pool_step \<Rightarrow> ('p, 't, 'a) FixedQueuePool" where
  "after_step pool (Admit p off) =
     pool\<lparr>offset_tracker := after_call (offset_tracker pool) (AddOffset p off)\<rparr>"
| "after_step pool (Complete p off) =
     pool\<lparr>offset_tracker := complete_offset (offset_tracker pool) p off\<rparr>"
| "after_step pool CommitRound = fst (commit_loop_iteration pool)"

text \<open>The items \<open>run_loop\<close> takes from the queue: all up to the first whose callback raises
  an exception that is no \<^verbatim>\<open>Exception\<close>, that one included.\<close>

fun dequeued_items ::
  "(string \<Rightarrow> 't \<Rightarrow> py_exception option) \<Rightarrow> string \<Rightarrow> ('p, 't, 'a) WorkItem list \<Rightarrow>
     ('p, 't, 'a) WorkItem list" where
  "dequeued_items rp ident [] = []"
| "dequeued_items rp ident (work_item # rest) =
     (case rp ident (result work_item) of
        None \<Rightarrow> work_item # dequeued_items rp ident rest
      | Some e \<Rightarrow> if isinstance_Exception e then work_item # dequeued_items rp ident rest
                  else [work_item])"

definition is_dequeue_or_complete :: "('p, 't) worker_event \<Rightarrow> bool" where
  "is_dequeue_or_complete ev =
     (case ev of Dequeued p off \<Rightarrow> True | CompleteOffsetCalled p off \<Rightarrow> True | _ \<Rightarrow> False)"

definition is_assignment :: "'p tracker_call \<Rightarrow> bool" where
  "is_assignment c = (case c of UpdateAssignments ps \<Rightarrow> True | _ \<Rightarrow> False)"

text \<open>
  The \<^verbatim>\<open>(partition, offset)\<close> calls a worker makes for the items it takes: the item is
  dequeued, then \<^verbatim>\<open>complete_offset\<close> is called for it.
\<close>

definition dequeue_then_complete :: "('p, 't, 'a) WorkItem \<Rightarrow> ('p, 't) worker_event list" where
  "dequeue_then_complete work_item =
     [Dequeued (partition work_item) (offset work_item),
      CompleteOffsetCalled (partition work_item) (offset work_item)]"

definition callback_caught :: "(string \<Rightarrow> 't \<Rightarrow> py_exception option) \<Rightarrow> string \<Rightarrow> 't \<Rightarrow> bool" where
  "callback_caught rp ident r =
     (case rp ident r of None \<Rightarrow> True | Some e \<Rightarrow> isinstance_Exception e)"

text \<open>
  The clock readings under which \<^verbatim>\<open>flush\<close> is known to return: no timeout, or a start
  reading followed by a reading at which the timeout has passed, or, when the queues are
  empty, by any reading.
\<close>

definition clock_suffices ::
  "real list \<Rightarrow> ('p, 't, 'a) FixedQueuePool \<Rightarrow> real option \<Rightarrow> bool" where
  "clock_suffices clock pool timeout =
     (case timeout of
        None \<Rightarrow> True
      | Some d \<Rightarrow>
          (case clock of
             [] \<Rightarrow> False
           | start_time # ts \<Rightarrow>
               (snd (get_stats pool) = 0 \<and> ts \<noteq> []) \<or> (\<exists>t \<in> set ts. d \<le> t - start_time)))"

text \<open>
  Every key of \<open>all_offsets\<close> has a lock: the condition under which the lock lookup of
  \<^verbatim>\<open>get_committable_offsets\<close> finds one for every partition it visits.
\<close>

definition keys_locked :: "'p OffsetTracker \<Rightarrow> bool" where
  "keys_locked s = (fst ` set (all_offsets s) \<subseteq> partition_locks s)"

section \<open>Examples\<close>

text \<open>
  Two runs on partition 0. In the first, offsets 5, 6, 7 and 9 are admitted and 5, 6, 7
  completed. The second goes on: the commit thread reads the committable offsets and
  marks 7 committed, then offset 9 completes.
\<close>

definition hole_calls :: "nat tracker_call list" where
  "hole_calls =
     [UpdateAssignments {0}, AddOffset 0 5, AddOffset 0 6, AddOffset 0 7, AddOffset 0 9,
      CompleteOffset 0 5, CompleteOffset 0 6, CompleteOffset 0 7]"

definition skipped_hole_calls :: "nat tracker_call list" where
  "skipped_hole_calls = hole_calls @ [GetCommittableOffsets, MarkCommitted 0 7, CompleteOffset 0 9]"

text \<open>
  A pool with three lanes whose callback and commit function return, with partition 0
  assigned; the item of a message with a given partition and offset; a run on partition 0
  that marks offset 5 committed while it is outstanding.
\<close>

definition example_pool :: "(nat, nat, nat) FixedQueuePool" where
  "example_pool =
     FixedQueuePool_update_assignments (FixedQueuePool_init (\<lambda>ident r. None) ''monitors'' 3)
       {0} (\<lambda>committable. None)"

definition example_item :: "nat \<Rightarrow> int \<Rightarrow> (nat, nat, nat) WorkItem" where
  "example_item p off =
     \<lparr>partition = p, offset = off, result = 0,
      message = \<lparr>payload = 0, msg_value = BrokerValue p off\<rparr>\<rparr>"

definition early_mark_calls :: "nat tracker_call list" where
  "early_mark_calls = [UpdateAssignments {0}, AddOffset 0 5, MarkCommitted 0 5]"

text \<open>
  Steps on the example pool: offset 5 of partition 0 is admitted and completed, the commit
  thread runs a round, then offset 6 is admitted and completed.
\<close>

definition commit_steps :: "nat pool_step list" where
  "commit_steps = [Admit 0 5, Complete 0 5, CommitRound, Admit 0 6, Complete 0 6]"

text \<open>
  Two callbacks that raise for the decoded payload 1, one \<open>SystemExit\<close> and one
  \<open>RuntimeError\<close>, and a worker with two items in its queue, the first with payload 1.
\<close>

definition exiting_callback :: "string \<Rightarrow> nat \<Rightarrow> py_exception option" where
  "exiting_callback ident r = (if r = 1 then Some SystemExit else None)"

definition failing_callback :: "string \<Rightarrow> nat \<Rightarrow> py_exception option" where
  "failing_callback ident r = (if r = 1 then Some RuntimeError else None)"

definition example_worker :: "(nat, nat, nat) OrderedQueueWorker" where
  "example_worker =
     \<lparr>worker_id = 0,
      work_queue = \<lparr>queue_items = [(example_item 0 5)\<lparr>result := 1\<rparr>, example_item 0 6],
                    is_shutdown = False\<rparr>,
      shutdown = False\<rparr>"

text \<open>
  The example pool with an item of partition 0 waiting in its first lane, and the example
  pool after offset 5 of partition 0 was admitted and completed but not committed.
\<close>

definition pending_pool :: "(nat, nat, nat) FixedQueuePool" where
  "pending_pool = fst (FixedQueuePool_submit (\<lambda>group_key. 0) example_pool ''group'' (example_item 0 5))"

definition completed_pool :: "(nat, nat, nat) FixedQueuePool" where
  "completed_pool = foldl after_step example_pool [Admit 0 5, Complete 0 5]"

text \<open>
  A strategy over the example pool whose decoder raises, and a message of partition 1,
  which is not assigned.
\<close>

definition raising_strategy :: "(nat, nat, nat) SimpleQueueProcessingStrategy" where
  "raising_strategy =
     \<lparr>queue_pool = example_pool, decoder = (\<lambda>payload. Inl RuntimeError),
      grouping_fn = (\<lambda>r. Inr ''group''), shutdown_event = False\<rparr>"

definition unassigned_message :: "(nat, nat) Message" where
  "unassigned_message = \<lparr>payload = 0, msg_value = BrokerValue 1 5\<rparr>"

section \<open>Dictionaries\<close>

lemma dict_get_update:
  "dict_get (AList.update k v d) k' dflt = (if k' = k then v else dict_get d k' dflt)"
  by (simp add: dict_get_def update_conv')

lemma dict_get_touch [simp]: "dict_get (defaultdict_touch d k) k' {} = dict_get d k' {}"
  by (auto simp: defaultdict_touch_def dict_get_def update_conv' split: option.splits)

lemma dict_get_Nil [simp]: "dict_get [] k dflt = dflt"
  by (simp add: dict_get_def)

lemma dict_get_nonempty_key: "dict_get d k {} \<noteq> {} \<Longrightarrow> k \<in> fst ` set d"
  by (auto simp: dict_get_def split: option.splits dest: map_of_SomeD intro: rev_image_eqI)

lemma keys_touch [simp]: "fst ` set (defaultdict_touch d k) = insert k (fst ` set d)"
  by (auto simp: defaultdict_touch_def dom_update split: option.splits
      dest: map_of_SomeD intro: rev_image_eqI)

section \<open>What get_committable_offsets returns\<close>

lemma committable_loop_frame:
  "committable_loop ps s acc = (s', r) \<Longrightarrow>
     all_offsets s' = all_offsets s \<and> last_committed s' = last_committed s \<and>
     partition_locks s' = partition_locks s \<and> (\<forall>q. outstanding_of s' q = outstanding_of s q)"
proof (induction ps arbitrary: s acc)
  case Nil
  then show ?case by simp
next
  case (Cons p ps)
  show ?case
  proof (cases "p \<notin> partition_locks s")
    case True
    with Cons.prems show ?thesis by simp
  next
    case locked: False
    show ?thesis
    proof (cases "dict_get (all_offsets s) p {} = {}")
      case True
      with locked Cons.prems have "committable_loop ps s acc = (s', r)" by simp
      then show ?thesis by (rule Cons.IH)
    next
      case False
      let ?s1 = "s\<lparr>outstanding := defaultdict_touch (outstanding s) p\<rparr>"
      from False locked Cons.prems obtain acc' where "committable_loop ps ?s1 acc' = (s', r)"
        by (auto simp: Let_def split: if_splits)
      from Cons.IH [OF this] show ?thesis by (simp add: outstanding_of_def)
    qed
  qed
qed

lemma committable_loop_result:
  "committable_loop ps s acc = (s', Inr m) \<Longrightarrow>
     map_of m p = (if p \<in> set ps \<and> committable_of s p \<noteq> None then committable_of s p else map_of acc p)"
proof (induction ps arbitrary: s acc)
  case Nil
  then show ?case by simp
next
  case (Cons q ps)
  from Cons.prems have locked: "q \<in> partition_locks s"
    by (auto split: if_splits)
  show ?case
  proof (cases "dict_get (all_offsets s) q {} = {}")
    case True
    with locked Cons.prems have "committable_loop ps s acc = (s', Inr m)" by simp
    from Cons.IH [OF this] True show ?thesis
      by (auto simp: committable_of_def admitted_def)
  next
    case False
    let ?s1 = "s\<lparr>outstanding := defaultdict_touch (outstanding s) q\<rparr>"
    let ?hc = "partition_committable (admitted s q) (outstanding_of s q) (lastCheckpoint s q)"
    let ?acc = "if ?hc > lastCheckpoint s q then AList.update q ?hc acc else acc"
    have same: "committable_of ?s1 p = committable_of s p"
      by (simp add: committable_of_def admitted_def outstanding_of_def lastCheckpoint_def)
    from False locked have "committable_loop (q # ps) s acc = committable_loop ps ?s1 ?acc"
      by (simp add: Let_def admitted_def outstanding_of_def lastCheckpoint_def cong: if_cong)
    with Cons.prems have "committable_loop ps ?s1 ?acc = (s', Inr m)"
      by simp
    from Cons.IH [OF this] have m: "map_of m p =
        (if p \<in> set ps \<and> committable_of s p \<noteq> None then committable_of s p else map_of ?acc p)"
      by (simp only: same)
    have q: "committable_of s q = (if ?hc > lastCheckpoint s q then Some ?hc else None)"
      using False by (simp add: committable_of_def admitted_def Let_def)
    show ?thesis
    proof (cases "p = q")
      case True
      with m q show ?thesis by (auto simp: update_conv')
    next
      case False
      with m show ?thesis by (auto simp: update_conv')
    qed
  qed
qed

lemma get_committable_offsets_result:
  assumes "get_committable_offsets s = (s', Inr m)"
  shows "map_of m p = committable_of s p"
proof -
  from assms have "map_of m p =
      (if p \<in> set (map fst (all_offsets s)) \<and> committable_of s p \<noteq> None then committable_of s p
       else map_of [] p)"
    unfolding get_committable_offsets_def by (rule committable_loop_result)
  moreover have "committable_of s p \<noteq> None \<Longrightarrow> p \<in> set (map fst (all_offsets s))"
    using dict_get_nonempty_key [of "all_offsets s" p]
    by (auto simp: committable_of_def admitted_def split: if_splits)
  ultimately show ?thesis by (cases "committable_of s p") (auto split: if_splits)
qed

lemma get_committable_offsets_frame:
  assumes "get_committable_offsets s = (s', r)"
  shows "admitted s' p = admitted s p" and "outstanding_of s' p = outstanding_of s p"
    and "lastCheckpoint s' p = lastCheckpoint s p" and "partition_locks s' = partition_locks s"
    and "all_offsets s' = all_offsets s" and "last_committed s' = last_committed s"
  using committable_loop_frame [OF assms [unfolded get_committable_offsets_def]]
  by (simp_all add: admitted_def lastCheckpoint_def)

text \<open>The inner loop over a range: it stops at the first offset that is not admitted or
  is outstanding, and every offset before that one is admitted and completed.\<close>

lemma highest_committable_upto:
  "highest_committable A B hc [a..b] = r \<Longrightarrow>
     (r = hc \<and> (b < a \<or> \<not> (a \<in> A \<and> a \<notin> B))) \<or>
     (a \<le> r \<and> r \<le> b \<and> (\<forall>x. a \<le> x \<and> x \<le> r \<longrightarrow> x \<in> A \<and> x \<notin> B) \<and>
      (r < b \<longrightarrow> \<not> (r + 1 \<in> A \<and> r + 1 \<notin> B)))"
proof (induction a b arbitrary: hc rule: upto.induct)
  case (1 a b)
  show ?case
  proof (cases "a \<le> b \<and> a \<in> A \<and> a \<notin> B")
    case False
    have "highest_committable A B hc [a..b] = hc"
    proof (cases "a \<le> b")
      case True
      with False show ?thesis by (auto simp: upto_rec1)
    next
      case False
      then show ?thesis by simp
    qed
    with "1.prems" False show ?thesis
      by auto
  next
    case True
    with "1.prems" have "highest_committable A B a [a + 1..b] = r"
      by (simp add: upto_rec1)
    from "1.IH" [OF _ this] True
    have "(r = a \<and> (b < a + 1 \<or> \<not> (a + 1 \<in> A \<and> a + 1 \<notin> B))) \<or>
          (a + 1 \<le> r \<and> r \<le> b \<and> (\<forall>x. a + 1 \<le> x \<and> x \<le> r \<longrightarrow> x \<in> A \<and> x \<notin> B) \<and>
           (r < b \<longrightarrow> \<not> (r + 1 \<in> A \<and> r + 1 \<notin> B)))"
      by simp
    then show ?thesis
    proof
      assume "r = a \<and> (b < a + 1 \<or> \<not> (a + 1 \<in> A \<and> a + 1 \<notin> B))"
      with True show ?thesis by auto
    next
      assume r: "a + 1 \<le> r \<and> r \<le> b \<and> (\<forall>x. a + 1 \<le> x \<and> x \<le> r \<longrightarrow> x \<in> A \<and> x \<notin> B) \<and>
           (r < b \<longrightarrow> \<not> (r + 1 \<in> A \<and> r + 1 \<notin> B))"
      have "\<forall>x. a \<le> x \<and> x \<le> r \<longrightarrow> x \<in> A \<and> x \<notin> B"
      proof (intro allI impI)
        fix x assume "a \<le> x \<and> x \<le> r"
        then have "x = a \<or> (a + 1 \<le> x \<and> x \<le> r)" by arith
        with r True show "x \<in> A \<and> x \<notin> B" by blast
      qed
      with r show ?thesis by simp
    qed
  qed
qed

lemma committable_of_contiguous:
  assumes "committable_of s p = Some v"
  shows "max (lastCheckpoint s p + 1) (Min (admitted s p)) \<le> v \<and> v \<le> Max (admitted s p) \<and>
         (\<forall>x. max (lastCheckpoint s p + 1) (Min (admitted s p)) \<le> x \<and> x \<le> v \<longrightarrow>
              x \<in> admitted s p \<and> x \<notin> outstanding_of s p) \<and>
         (v < Max (admitted s p) \<longrightarrow> v + 1 \<notin> admitted s p \<or> v + 1 \<in> outstanding_of s p)"
proof -
  let ?A = "admitted s p" and ?B = "outstanding_of s p" and ?lc = "lastCheckpoint s p"
  let ?start = "max (?lc + 1) (Min ?A)"
  from assms have v: "highest_committable ?A ?B ?lc [?start..Max ?A] = v" and gt: "?lc < v"
    by (auto simp: committable_of_def partition_committable_def Let_def split: if_splits)
  from highest_committable_upto [OF v] gt show ?thesis
    by auto
qed

text \<open>Every key of \<open>all_offsets\<close> has a lock in a state the interface can reach, so the
  lock lookup of \<^verbatim>\<open>get_committable_offsets\<close> finds one and the call returns.\<close>

lemma committable_loop_returns:
  "set ps \<subseteq> partition_locks s \<Longrightarrow> \<exists>s' m. committable_loop ps s acc = (s', Inr m)"
proof (induction ps arbitrary: s acc)
  case Nil
  then show ?case by simp
next
  case (Cons p ps)
  then have p: "p \<in> partition_locks s" and ps: "set ps \<subseteq> partition_locks s"
    by auto
  show ?case
  proof (cases "dict_get (all_offsets s) p {} = {}")
    case True
    with p Cons.IH [OF ps] show ?thesis by simp
  next
    case False
    let ?s1 = "s\<lparr>outstanding := defaultdict_touch (outstanding s) p\<rparr>"
    from ps have "set ps \<subseteq> partition_locks ?s1" by simp
    from Cons.IH [OF this] False p show ?thesis by (simp add: Let_def)
  qed
qed

lemma get_committable_offsets_returns:
  "keys_locked s \<Longrightarrow> \<exists>s' m. get_committable_offsets s = (s', Inr m)"
  unfolding get_committable_offsets_def keys_locked_def
  by (rule committable_loop_returns) simp

lemma keys_locked_after_call: "keys_locked s \<Longrightarrow> keys_locked (after_call s c)"
proof (cases c)
  case GetCommittableOffsets
  assume "keys_locked s"
  moreover obtain s' r where "get_committable_offsets s = (s', r)"
    by (cases "get_committable_offsets s")
  ultimately show ?thesis
    using GetCommittableOffsets get_committable_offsets_frame(4,5) [of s s' r]
    by (simp add: keys_locked_def)
qed (auto simp: keys_locked_def add_offset_def complete_offset_def mark_committed_def
      update_assignments_def clear_def dom_update)

lemma keys_locked_after_calls: "keys_locked s \<Longrightarrow> keys_locked (after_calls s cs)"
  unfolding after_calls_def
  by (induction cs arbitrary: s) (simp_all add: keys_locked_after_call)

lemma keys_locked_init: "keys_locked OffsetTracker_init"
  by (simp add: keys_locked_def OffsetTracker_init_def)

text \<open>The sets of admitted offsets are finite in every state the interface can reach.\<close>

lemma finite_admitted_after_call:
  assumes "\<forall>p. finite (admitted s p)"
  shows "finite (admitted (after_call s c) p)"
proof (cases c)
  case (AddOffset q off)
  with assms show ?thesis
    by (auto simp: add_offset_def admitted_def dict_get_update)
next
  case (CompleteOffset q off)
  with assms show ?thesis
    by (auto simp: complete_offset_def admitted_def)
next
  case GetCommittableOffsets
  obtain s' r where "get_committable_offsets s = (s', r)"
    by (cases "get_committable_offsets s")
  with assms GetCommittableOffsets show ?thesis
    by (simp add: get_committable_offsets_frame(1) [of s s' r])
next
  case (MarkCommitted q off)
  with assms show ?thesis
    by (auto simp: mark_committed_def admitted_def dict_get_update)
next
  case (UpdateAssignments ps)
  then show ?thesis
    by (simp add: update_assignments_def clear_def admitted_def)
next
  case Clear
  then show ?thesis
    by (simp add: clear_def admitted_def)
qed

lemma finite_admitted_after_calls:
  "finite (admitted (after_calls OffsetTracker_init cs) p)"
proof -
  have "\<forall>p. finite (admitted s p) \<Longrightarrow> \<forall>p. finite (admitted (foldl after_call s cs) p)" for s :: "'a OffsetTracker"
    by (induction cs arbitrary: s) (simp_all add: finite_admitted_after_call)
  moreover have "\<forall>p. finite (admitted (OffsetTracker_init :: 'a OffsetTracker) p)"
    by (simp add: admitted_def OffsetTracker_init_def)
  ultimately show ?thesis
    by (simp add: after_calls_def)
qed

section \<open>The committable offset is contiguous from its start\<close>

lemma after_hole_calls:
  "after_calls OffsetTracker_init hole_calls =
     \<lparr>all_offsets = [(0, {5, 6, 7, 9})], outstanding = [(0, {9})], last_committed = [],
      partition_locks = {0}\<rparr>"
  by code_simp

lemma after_skipped_hole_calls:
  "after_calls OffsetTracker_init skipped_hole_calls =
     \<lparr>all_offsets = [(0, {9})], outstanding = [(0, {})], last_committed = [(0, 7)],
      partition_locks = {0}\<rparr>"
  by code_simp

text \<open>
  C1, as the code has it. After any sequence of calls, a value \<open>v\<close> that
  \<^verbatim>\<open>get_committable_offsets\<close> returns for a partition is at least
  \<open>start = max (lastCheckpoint + 1) (min admitted)\<close>; every offset from \<open>start\<close> to \<open>v\<close> is
  admitted and not outstanding; and \<open>v\<close> is the last admitted offset or \<open>v + 1\<close> is not
  admitted or is outstanding, so the scan stops at the first hole at or after \<open>start\<close>.
  The offsets between the last checkpoint and the least admitted offset are not looked
  at.
\<close>

theorem committable_contiguous_from_start:
  assumes "get_committable_offsets (after_calls OffsetTracker_init cs) = (s', Inr m)"
    and "map_of m p = Some v"
  shows "let s = after_calls OffsetTracker_init cs;
             start = max (lastCheckpoint s p + 1) (Min (admitted s p))
         in start \<le> v \<and> v \<le> Max (admitted s p) \<and>
            (\<forall>x. start \<le> x \<and> x \<le> v \<longrightarrow> x \<in> admitted s p \<and> x \<notin> outstanding_of s p) \<and>
            (v < Max (admitted s p) \<longrightarrow> v + 1 \<notin> admitted s p \<or> v + 1 \<in> outstanding_of s p)"
proof -
  from assms have "committable_of (after_calls OffsetTracker_init cs) p = Some v"
    by (simp add: get_committable_offsets_result)
  from committable_of_contiguous [OF this] show ?thesis
    by (simp add: Let_def)
qed

text \<open>
  C1 as stated fails. Offsets 5, 6, 7, 9 are admitted, 5 to 7 completed and 7 committed;
  then 9 completes. The next call returns 9 although offset 8, which lies between the
  last checkpoint 7 and 9, was never admitted.
\<close>

theorem committable_skips_leading_hole:
  "snd (get_committable_offsets (after_calls OffsetTracker_init skipped_hole_calls)) = Inr [(0, 9)] \<and>
   lastCheckpoint (after_calls OffsetTracker_init skipped_hole_calls) 0 = 7 \<and>
   (7::int) < 8 \<and> (8::int) \<le> 9 \<and>
   8 \<notin> admitted (after_calls OffsetTracker_init skipped_hole_calls) 0"
  by (simp add: after_skipped_hole_calls get_committable_offsets_def dict_get_def
      defaultdict_touch_def partition_committable_def lastCheckpoint_def admitted_def Let_def)

text \<open>
  C1, an instance: the run above, where 9 is returned and is admitted and completed.
\<close>

theorem committable_contiguous_from_start_witness:
  "get_committable_offsets (after_calls OffsetTracker_init skipped_hole_calls) =
     (after_calls OffsetTracker_init skipped_hole_calls, Inr [(0, 9)]) \<and>
   map_of [(0::nat, 9::int)] 0 = Some 9 \<and>
   9 \<in> admitted (after_calls OffsetTracker_init skipped_hole_calls) 0 \<and>
   9 \<notin> outstanding_of (after_calls OffsetTracker_init skipped_hole_calls) 0"
proof -
  let ?S = "after_calls OffsetTracker_init skipped_hole_calls"
  have r: "get_committable_offsets ?S = (?S, Inr [(0, 9)])"
    by (simp add: after_skipped_hole_calls get_committable_offsets_def dict_get_def
        defaultdict_touch_def partition_committable_def Let_def)
  have m: "map_of [(0::nat, 9::int)] 0 = Some 9"
    by simp
  from committable_contiguous_from_start [OF r m]
  have "9 \<in> admitted ?S 0 \<and> 9 \<notin> outstanding_of ?S 0"
    unfolding Let_def by blast
  with r m show ?thesis by blast
qed

section \<open>The example with a hole\<close>

lemma partition_committable_hole: "partition_committable {5, 6, 7, 9} {9} (- 1) = 7"
  by (simp add: partition_committable_def Let_def)

text \<open>
  C4. In a state reached by calls of the interface where a partition has no checkpoint,
  its admitted offsets are 5, 6, 7 and 9 and only 9 is outstanding,
  \<^verbatim>\<open>get_committable_offsets\<close> returns, and returns 7 for the partition.
\<close>

theorem committable_stops_before_hole:
  assumes "s = after_calls OffsetTracker_init cs"
    and "map_of (last_committed s) p = None"
    and "admitted s p = {5, 6, 7, 9}"
    and "outstanding_of s p = {9}"
  shows "\<exists>s' m. get_committable_offsets s = (s', Inr m) \<and> map_of m p = Some 7"
proof -
  from assms(1) have "keys_locked s"
    by (simp add: keys_locked_after_calls keys_locked_init)
  then obtain s' m where r: "get_committable_offsets s = (s', Inr m)"
    using get_committable_offsets_returns by blast
  from assms(2) have "lastCheckpoint s p = - 1"
    by (simp add: lastCheckpoint_def dict_get_def)
  with assms(3,4) have "committable_of s p = Some 7"
    by (simp add: committable_of_def partition_committable_hole)
  with r have "map_of m p = Some 7"
    by (simp add: get_committable_offsets_result)
  with r show ?thesis by blast
qed

text \<open>
  C4, an instance: the state after admitting 5, 6, 7, 9 and completing 5, 6, 7 on
  partition 0.
\<close>

theorem committable_stops_before_hole_witness:
  "map_of (last_committed (after_calls OffsetTracker_init hole_calls)) 0 = None \<and>
   admitted (after_calls OffsetTracker_init hole_calls) 0 = {5, 6, 7, 9} \<and>
   outstanding_of (after_calls OffsetTracker_init hole_calls) 0 = {9} \<and>
   (\<exists>s' m. get_committable_offsets (after_calls OffsetTracker_init hole_calls) = (s', Inr m) \<and>
      map_of m 0 = Some 7)"
proof -
  let ?S = "after_calls OffsetTracker_init hole_calls"
  have h1: "map_of (last_committed ?S) 0 = None"
    by (simp add: after_hole_calls)
  have h2: "admitted ?S 0 = {5, 6, 7, 9}"
    by (simp add: after_hole_calls admitted_def dict_get_def)
  have h3: "outstanding_of ?S 0 = {9}"
    by (simp add: after_hole_calls outstanding_of_def dict_get_def)
  from committable_stops_before_hole [OF refl h1 h2 h3] h1 h2 h3 show ?thesis
    by blast
qed

section \<open>Calls for a partition without a lock\<close>

text \<open>
  C10. For a partition without a lock, \<^verbatim>\<open>mark_committed\<close> raises \<open>KeyError\<close> (from the lock
  lookup), where \<^verbatim>\<open>complete_offset\<close> returns and changes nothing and \<^verbatim>\<open>add_offset\<close> raises
  \<open>UnassignedPartitionError\<close>.
\<close>

theorem mark_committed_unassigned_raises_KeyError:
  assumes "p \<notin> partition_locks s"
  shows "mark_committed s p off = Inl KeyError \<and> complete_offset s p off = s \<and>
         add_offset s p off = Inl UnassignedPartitionError"
  using assms by (simp add: mark_committed_def complete_offset_def add_offset_def)

text \<open>
  C10, an instance: partition 1 when only partition 0 is assigned.
\<close>

theorem mark_committed_unassigned_raises_KeyError_witness:
  "(1::nat) \<notin> partition_locks (update_assignments OffsetTracker_init {0}) \<and>
   mark_committed (update_assignments OffsetTracker_init {0}) (1::nat) 5 = Inl KeyError \<and>
   complete_offset (update_assignments OffsetTracker_init {0}) (1::nat) 5 =
     update_assignments OffsetTracker_init {0}"
proof -
  have h: "(1::nat) \<notin> partition_locks (update_assignments OffsetTracker_init {0})"
    by (simp add: update_assignments_def)
  from mark_committed_unassigned_raises_KeyError [OF h, of 5] h show ?thesis
    by simp
qed

text \<open>
  C6. \<^verbatim>\<open>FixedQueuePool.submit\<close> of an item whose partition has no lock returns without an
  exception and leaves the pool as it was: no queue has the item, and the tracker
  (admitted, outstanding, last checkpoint) is unchanged.
\<close>

theorem submit_unassigned_partition_dropped:
  assumes "partition work_item \<notin> partition_locks (offset_tracker pool)"
  shows "FixedQueuePool_submit hash pool group_key work_item = (pool, None)"
  using assms by (simp add: FixedQueuePool_submit_def add_offset_def)

text \<open>
  C6, an instance: an item of partition 1 submitted to a pool that has partition 0 only.
\<close>

theorem submit_unassigned_partition_dropped_witness:
  "partition (example_item 1 5) \<notin> partition_locks (offset_tracker example_pool) \<and>
   FixedQueuePool_submit (\<lambda>group_key. 0) example_pool ''group'' (example_item 1 5) =
     (example_pool, None)"
proof -
  have h: "partition (example_item 1 5) \<notin> partition_locks (offset_tracker example_pool)"
    by (simp add: example_item_def example_pool_def FixedQueuePool_update_assignments_def
        update_assignments_def)
  from submit_unassigned_partition_dropped [OF h] h show ?thesis
    by simp
qed

section \<open>Outstanding offsets are admitted\<close>

lemma subset_after_call:
  assumes "outstanding_of s p \<subseteq> admitted s p" and "mark_safe s c"
  shows "outstanding_of (after_call s c) p \<subseteq> admitted (after_call s c) p"
proof (cases c)
  case (AddOffset q off)
  with assms(1) show ?thesis
    by (auto simp: add_offset_def outstanding_of_def admitted_def dict_get_update)
next
  case (CompleteOffset q off)
  with assms(1) show ?thesis
    by (auto simp: complete_offset_def outstanding_of_def admitted_def dict_get_update)
next
  case GetCommittableOffsets
  obtain s' r where "get_committable_offsets s = (s', r)"
    by (cases "get_committable_offsets s")
  with assms(1) GetCommittableOffsets show ?thesis
    by (simp add: get_committable_offsets_frame(1,2) [of s s' r])
next
  case (MarkCommitted q off)
  with assms show ?thesis
    by (auto simp: mark_committed_def outstanding_of_def admitted_def dict_get_update)
next
  case (UpdateAssignments ps)
  then show ?thesis
    by (simp add: update_assignments_def clear_def outstanding_of_def admitted_def)
next
  case Clear
  then show ?thesis
    by (simp add: clear_def outstanding_of_def admitted_def)
qed

lemma subset_after_calls:
  "outstanding_of s p \<subseteq> admitted s p \<Longrightarrow> marks_safe s cs \<Longrightarrow>
     outstanding_of (foldl after_call s cs) p \<subseteq> admitted (foldl after_call s cs) p"
proof (induction cs arbitrary: s)
  case Nil
  then show ?case by simp
next
  case (Cons c cs)
  from Cons.prems have "outstanding_of (after_call s c) p \<subseteq> admitted (after_call s c) p"
    by (simp add: subset_after_call)
  moreover from Cons.prems have "marks_safe (after_call s c) cs"
    by simp
  ultimately show ?case
    using Cons.IH by simp
qed

text \<open>
  C3, as the code has it. After any sequence of calls of the interface from the initial
  state, the outstanding offsets of every partition are among its admitted offsets,
  provided each \<^verbatim>\<open>mark_committed(p, o)\<close> is made when no offset up to \<open>o\<close> is outstanding
  for \<open>p\<close>: \<^verbatim>\<open>mark_committed\<close> removes the admitted offsets up to \<open>o\<close> and leaves
  \<open>outstanding\<close> alone.
\<close>

text \<open>
  The condition on \<^verbatim>\<open>mark_committed\<close> below holds for the value the commit loop passes,
  as long as every admitted offset of the partition lies above its checkpoint.
\<close>

lemma committable_mark_safe:
  assumes "finite (admitted s p)" and "outstanding_of s p \<subseteq> admitted s p"
    and "\<forall>x \<in> admitted s p. lastCheckpoint s p < x"
    and "committable_of s p = Some v"
  shows "mark_safe s (MarkCommitted p v)"
proof -
  have "v < x" if x: "x \<in> outstanding_of s p" for x
  proof (rule ccontr)
    assume "\<not> v < x"
    moreover from x assms(2) have adm: "x \<in> admitted s p" by blast
    with assms(1,3) have "max (lastCheckpoint s p + 1) (Min (admitted s p)) \<le> x"
      by auto
    ultimately have "x \<notin> outstanding_of s p"
      using committable_of_contiguous [OF assms(4)] by auto
    with x show False by simp
  qed
  then show ?thesis by simp
qed

theorem outstanding_subset_admitted:
  assumes "marks_safe OffsetTracker_init cs"
  shows "outstanding_of (after_calls OffsetTracker_init cs) p
           \<subseteq> admitted (after_calls OffsetTracker_init cs) p"
proof -
  have "outstanding_of OffsetTracker_init p \<subseteq> admitted OffsetTracker_init p"
    by (simp add: outstanding_of_def admitted_def OffsetTracker_init_def)
  from subset_after_calls [OF this assms] show ?thesis
    by (simp add: after_calls_def)
qed

text \<open>
  C3, an instance: the run in which 7 is marked committed while only 9 is outstanding.
\<close>

theorem outstanding_subset_admitted_witness:
  "marks_safe OffsetTracker_init skipped_hole_calls \<and>
   outstanding_of (after_calls OffsetTracker_init skipped_hole_calls) 0
     \<subseteq> admitted (after_calls OffsetTracker_init skipped_hole_calls) 0"
proof -
  have h: "marks_safe OffsetTracker_init skipped_hole_calls"
    by code_simp
  from outstanding_subset_admitted [OF h] h show ?thesis
    by simp
qed

text \<open>
  C3 as stated fails: offset 5 is admitted and marked committed before it completes;
  it is then outstanding and no longer admitted.
\<close>

theorem mark_committed_leaves_outstanding:
  "5 \<in> outstanding_of (after_calls OffsetTracker_init early_mark_calls) 0 \<and>
   5 \<notin> admitted (after_calls OffsetTracker_init early_mark_calls) 0"
  by code_simp

section \<open>The commit loop raises the checkpoint\<close>

lemma lastCheckpoint_mark_committed:
  "mark_committed s p off = Inr s' \<Longrightarrow>
     lastCheckpoint s' q = (if q = p then off else lastCheckpoint s q)"
  by (auto simp: mark_committed_def lastCheckpoint_def dict_get_update split: if_splits)

lemma marks_exceed_distinct:
  "distinct (map fst m) \<Longrightarrow> (\<And>p v. (p, v) \<in> set m \<Longrightarrow> lastCheckpoint s p < v) \<Longrightarrow>
     marks_exceed s m"
proof (induction m arbitrary: s)
  case Nil
  then show ?case by simp
next
  case (Cons pv m)
  obtain p v where pv: "pv = (p, v)" by (cases pv)
  from Cons.prems(2) pv have first: "lastCheckpoint s p < v" by simp
  show ?case
  proof (cases "mark_committed s p v")
    case (Inl e)
    with first pv show ?thesis by simp
  next
    case (Inr s')
    have "marks_exceed s' m"
    proof (rule Cons.IH)
      from Cons.prems(1) show "distinct (map fst m)" by simp
    next
      fix q w assume qw: "(q, w) \<in> set m"
      with Cons.prems(1) pv have "q \<noteq> p" by force
      with Inr have "lastCheckpoint s' q = lastCheckpoint s q"
        by (simp add: lastCheckpoint_mark_committed)
      with Cons.prems(2) qw show "lastCheckpoint s' q < w" by simp
    qed
    with first pv Inr show ?thesis by simp
  qed
qed

lemma committable_loop_distinct:
  "distinct (map fst acc) \<Longrightarrow> committable_loop ps s acc = (s', Inr m) \<Longrightarrow> distinct (map fst m)"
proof (induction ps arbitrary: s acc)
  case Nil
  then show ?case by simp
next
  case (Cons q ps)
  from Cons.prems(2) have locked: "q \<in> partition_locks s"
    by (auto split: if_splits)
  show ?case
  proof (cases "dict_get (all_offsets s) q {} = {}")
    case True
    with locked Cons.prems(2) have "committable_loop ps s acc = (s', Inr m)" by simp
    with Cons.prems(1) show ?thesis by (rule Cons.IH)
  next
    case False
    with locked Cons.prems(2) obtain acc' where
      acc': "acc' = acc \<or> (\<exists>v. acc' = AList.update q v acc)" and
      loop: "committable_loop ps (s\<lparr>outstanding := defaultdict_touch (outstanding s) q\<rparr>) acc'
               = (s', Inr m)"
      by (auto simp: Let_def split: if_splits)
    from acc' Cons.prems(1) have "distinct (map fst acc')"
      by (auto simp: distinct_update)
    then show ?thesis using loop by (rule Cons.IH)
  qed
qed

lemma committable_marks_exceed:
  assumes "get_committable_offsets s = (s1, Inr m)"
  shows "marks_exceed s1 m"
proof (rule marks_exceed_distinct)
  from assms show d: "distinct (map fst m)"
    unfolding get_committable_offsets_def by (rule committable_loop_distinct [rotated]) simp
  fix p v assume "(p, v) \<in> set m"
  with d have "map_of m p = Some v" by simp
  with assms have "committable_of s p = Some v"
    by (simp add: get_committable_offsets_result)
  then have "lastCheckpoint s p < v"
    by (auto simp: committable_of_def Let_def split: if_splits)
  with assms show "lastCheckpoint s1 p < v"
    by (simp add: get_committable_offsets_frame(3) [of s s1 "Inr m"])
qed

lemma mark_all_monotone:
  "marks_exceed s m \<Longrightarrow> lastCheckpoint s p \<le> lastCheckpoint (fst (mark_all s m)) p"
proof (induction m arbitrary: s)
  case Nil
  then show ?case by simp
next
  case (Cons qv m)
  obtain q v where qv: "qv = (q, v)" by (cases qv)
  show ?case
  proof (cases "mark_committed s q v")
    case (Inl e)
    with qv show ?thesis by simp
  next
    case (Inr s')
    with Cons.prems qv have "lastCheckpoint s q < v" and "marks_exceed s' m"
      by simp_all
    from Cons.IH [OF this(2)] have "lastCheckpoint s' p \<le> lastCheckpoint (fst (mark_all s' m)) p" .
    moreover from Inr \<open>lastCheckpoint s q < v\<close> have "lastCheckpoint s p \<le> lastCheckpoint s' p"
      by (simp add: lastCheckpoint_mark_committed)
    ultimately show ?thesis using qv Inr by simp
  qed
qed

lemma commit_loop_iteration_monotone:
  "lastCheckpoint (offset_tracker pool) p
     \<le> lastCheckpoint (offset_tracker (fst (commit_loop_iteration pool))) p"
proof -
  obtain tr r where g: "get_committable_offsets (offset_tracker pool) = (tr, r)"
    by (cases "get_committable_offsets (offset_tracker pool)")
  then have same: "lastCheckpoint tr p = lastCheckpoint (offset_tracker pool) p"
    by (rule get_committable_offsets_frame(3))
  show ?thesis
  proof (cases r)
    case (Inl e)
    with g same show ?thesis
      by (simp add: commit_loop_iteration_def commit_loop_except_def)
  next
    case (Inr m)
    with g have "marks_exceed tr m" by (simp add: committable_marks_exceed)
    then have "lastCheckpoint tr p \<le> lastCheckpoint (fst (mark_all tr m)) p"
      by (rule mark_all_monotone)
    with g Inr same show ?thesis
      by (cases "mark_all tr m")
        (auto simp: commit_loop_iteration_def commit_loop_except_def Let_def
          split: option.splits)
  qed
qed

lemma after_step_monotone:
  "lastCheckpoint (offset_tracker pool) p \<le> lastCheckpoint (offset_tracker (after_step pool st)) p"
proof (cases st)
  case (Admit q off)
  then show ?thesis
    by (simp add: add_offset_def lastCheckpoint_def)
next
  case (Complete q off)
  then show ?thesis
    by (simp add: complete_offset_def lastCheckpoint_def)
next
  case CommitRound
  then show ?thesis
    by (simp add: commit_loop_iteration_monotone)
qed

lemma after_steps_monotone:
  "lastCheckpoint (offset_tracker pool) p
     \<le> lastCheckpoint (offset_tracker (foldl after_step pool steps)) p"
proof (induction steps arbitrary: pool)
  case Nil
  show ?case by simp
next
  case (Cons st steps)
  have "lastCheckpoint (offset_tracker pool) p
          \<le> lastCheckpoint (offset_tracker (after_step pool st)) p"
    by (rule after_step_monotone)
  also have "\<dots> \<le> lastCheckpoint (offset_tracker (foldl after_step (after_step pool st) steps)) p"
    by (rule Cons.IH)
  finally show ?case by simp
qed

text \<open>
  C7. Whatever offsets were admitted and completed and however many rounds the commit
  loop has run, each \<^verbatim>\<open>mark_committed(p, o)\<close> the loop makes with the mapping
  \<^verbatim>\<open>get_committable_offsets\<close> returned has \<open>o\<close> above the checkpoint of \<open>p\<close> at that
  moment (\<open>- 1\<close> when there is none), and the checkpoint of a partition is never lower
  after such steps, or after one more round, than before.
\<close>

theorem commit_loop_checkpoint_increases:
  assumes "get_committable_offsets (offset_tracker (foldl after_step pool steps)) = (s1, Inr m)"
  shows "marks_exceed s1 m \<and>
         lastCheckpoint (offset_tracker pool) p
           \<le> lastCheckpoint (offset_tracker (foldl after_step pool steps)) p \<and>
         lastCheckpoint (offset_tracker (foldl after_step pool steps)) p
           \<le> lastCheckpoint (offset_tracker (after_step (foldl after_step pool steps) CommitRound)) p"
  using committable_marks_exceed [OF assms] after_steps_monotone [of pool p steps]
    after_step_monotone [of "foldl after_step pool steps" p CommitRound]
  by simp

lemma after_commit_steps:
  "offset_tracker (foldl after_step example_pool commit_steps) =
     \<lparr>all_offsets = [(0, {6})], outstanding = [(0, {})], last_committed = [(0, 5)],
      partition_locks = {0}\<rparr>"
  by code_simp

text \<open>
  C7, an instance: after 5 was committed and 6 completed, the next round marks 6.
\<close>

theorem commit_loop_checkpoint_increases_witness:
  "get_committable_offsets (offset_tracker (foldl after_step example_pool commit_steps)) =
     (offset_tracker (foldl after_step example_pool commit_steps), Inr [(0, 6)]) \<and>
   marks_exceed (offset_tracker (foldl after_step example_pool commit_steps)) [(0, 6)] \<and>
   lastCheckpoint (offset_tracker (foldl after_step example_pool commit_steps)) 0 = 5 \<and>
   lastCheckpoint (offset_tracker
     (after_step (foldl after_step example_pool commit_steps) CommitRound)) 0 = 6"
proof -
  let ?pool = "foldl after_step example_pool commit_steps"
  have h: "get_committable_offsets (offset_tracker ?pool) = (offset_tracker ?pool, Inr [(0, 6)])"
    by (simp add: after_commit_steps get_committable_offsets_def dict_get_def
        defaultdict_touch_def partition_committable_def Let_def)
  have lc: "lastCheckpoint (offset_tracker ?pool) 0 = 5"
    by (simp add: after_commit_steps lastCheckpoint_def dict_get_def)
  have lc': "lastCheckpoint (offset_tracker (after_step ?pool CommitRound)) 0 = 6"
    by code_simp
  from commit_loop_checkpoint_increases [OF h, of 0] h lc lc' show ?thesis
    by simp
qed

section \<open>The worker completes every offset it dequeues\<close>

lemma is_dequeue_or_complete_simps [simp]:
  "is_dequeue_or_complete (Dequeued p off)"
  "is_dequeue_or_complete (CompleteOffsetCalled p off)"
  "\<not> is_dequeue_or_complete (Processed r)"
  "\<not> is_dequeue_or_complete LoggedException"
  by (simp_all add: is_dequeue_or_complete_def)

lemma run_loop_events:
  "filter is_dequeue_or_complete (fst (run_loop rp ident False shut q tr)) =
     concat (map dequeue_then_complete (dequeued_items rp ident q))"
proof (induction q arbitrary: tr)
  case Nil
  show ?case by simp
next
  case (Cons work_item rest)
  let ?tr = "complete_offset tr (partition work_item) (offset work_item)"
  obtain evs q' tr' ex where r: "run_loop rp ident False shut rest ?tr = (evs, q', tr', ex)"
    by (cases "run_loop rp ident False shut rest ?tr")
  with Cons.IH [of ?tr]
  have IH: "filter is_dequeue_or_complete evs =
              concat (map dequeue_then_complete (dequeued_items rp ident rest))"
    by simp
  have head: "dequeue_then_complete work_item =
      [Dequeued (partition work_item) (offset work_item),
       CompleteOffsetCalled (partition work_item) (offset work_item)]"
    by (simp add: dequeue_then_complete_def)
  show ?case
    using r IH
    by (cases "rp ident (result work_item)") (simp_all add: Let_def head)
qed

lemma run_loop_tracker:
  "fst (snd (snd (run_loop rp ident False shut q tr))) =
     foldl (\<lambda>t work_item. complete_offset t (partition work_item) (offset work_item)) tr
       (dequeued_items rp ident q)"
proof (induction q arbitrary: tr)
  case Nil
  show ?case by simp
next
  case (Cons work_item rest)
  let ?tr = "complete_offset tr (partition work_item) (offset work_item)"
  obtain evs q' tr' ex where r: "run_loop rp ident False shut rest ?tr = (evs, q', tr', ex)"
    by (cases "run_loop rp ident False shut rest ?tr")
  with Cons.IH [of ?tr] show ?case
    by (cases "rp ident (result work_item)") (simp_all add: Let_def)
qed

lemma run_loop_all_caught:
  "\<forall>work_item \<in> set q. callback_caught rp ident (result work_item) \<Longrightarrow>
     dequeued_items rp ident q = q \<and>
     fst (snd (run_loop rp ident False shut q tr)) = [] \<and>
     snd (snd (snd (run_loop rp ident False shut q tr))) = (if shut then Stopped else Waiting)"
proof (induction q arbitrary: tr)
  case Nil
  show ?case by simp
next
  case (Cons work_item rest)
  let ?tr = "complete_offset tr (partition work_item) (offset work_item)"
  obtain evs q' tr' ex where r: "run_loop rp ident False shut rest ?tr = (evs, q', tr', ex)"
    by (cases "run_loop rp ident False shut rest ?tr")
  from Cons.prems have "\<forall>work_item \<in> set rest. callback_caught rp ident (result work_item)"
    by simp
  from Cons.IH [OF this, of ?tr] r
  have "dequeued_items rp ident rest = rest \<and> q' = [] \<and> ex = (if shut then Stopped else Waiting)"
    by simp
  moreover from Cons.prems have "callback_caught rp ident (result work_item)"
    by simp
  ultimately show ?case
    using r by (cases "rp ident (result work_item)") (simp_all add: Let_def callback_caught_def)
qed

text \<open>
  C5, as the code has it. Of the events of a worker's run, those that are a dequeue or
  a \<^verbatim>\<open>complete_offset\<close> call come in pairs: each item taken from the queue is followed by
  the call for its partition and offset before the next item is taken, whatever the
  callback did, and the tracker ends as these calls leave it. When every callback call
  returns or raises an \<^verbatim>\<open>Exception\<close>, the worker takes every item of the queue and is left
  waiting for the next (or stopped by the queue's shutdown): the loop has not ended
  with an exception.
\<close>

theorem worker_completes_each_dequeued_offset:
  assumes "\<not> shutdown w"
    and "run rp ident w tr = (evs, w', tr', ex)"
  shows "filter is_dequeue_or_complete evs =
           concat (map dequeue_then_complete (dequeued_items rp ident (queue_items (work_queue w)))) \<and>
         tr' = foldl (\<lambda>t work_item. complete_offset t (partition work_item) (offset work_item)) tr
                 (dequeued_items rp ident (queue_items (work_queue w))) \<and>
         ((\<forall>work_item \<in> set (queue_items (work_queue w)).
              callback_caught rp ident (result work_item)) \<longrightarrow>
            dequeued_items rp ident (queue_items (work_queue w)) = queue_items (work_queue w) \<and>
            queue_items (work_queue w') = [] \<and>
            ex = (if is_shutdown (work_queue w) then Stopped else Waiting))"
proof -
  let ?q = "queue_items (work_queue w)" and ?shut = "is_shutdown (work_queue w)"
  obtain evs0 q0 tr0 ex0 where r: "run_loop rp ident False ?shut ?q tr = (evs0, q0, tr0, ex0)"
    by (cases "run_loop rp ident False ?shut ?q tr")
  with assms have eq: "evs = evs0" "tr' = tr0" "ex = ex0" "queue_items (work_queue w') = q0"
    by (auto simp: run_def)
  from run_loop_events [of rp ident ?shut ?q tr] r eq
  have "filter is_dequeue_or_complete evs = concat (map dequeue_then_complete (dequeued_items rp ident ?q))"
    by simp
  moreover from run_loop_tracker [of rp ident ?shut ?q tr] r eq
  have "tr' = foldl (\<lambda>t work_item. complete_offset t (partition work_item) (offset work_item)) tr
                 (dequeued_items rp ident ?q)"
    by simp
  moreover have "(\<forall>work_item \<in> set ?q. callback_caught rp ident (result work_item)) \<longrightarrow>
            dequeued_items rp ident ?q = ?q \<and> queue_items (work_queue w') = [] \<and>
            ex = (if ?shut then Stopped else Waiting)"
    using run_loop_all_caught [of ?q rp ident ?shut tr] r eq by simp
  ultimately show ?thesis by blast
qed

text \<open>
  C5, an instance: the callback raises \<open>RuntimeError\<close> for the first of two items; both
  are dequeued and completed, and the worker waits.
\<close>

theorem worker_completes_each_dequeued_offset_witness:
  "\<not> shutdown example_worker \<and>
   map result (queue_items (work_queue example_worker)) = [1, 0] \<and>
   callback_caught failing_callback ''monitors'' 1 \<and>
   callback_caught failing_callback ''monitors'' 0 \<and>
   filter is_dequeue_or_complete
     (fst (run failing_callback ''monitors'' example_worker (offset_tracker example_pool))) =
     [Dequeued 0 5, CompleteOffsetCalled 0 5, Dequeued 0 6, CompleteOffsetCalled 0 6] \<and>
   snd (snd (snd (run failing_callback ''monitors'' example_worker (offset_tracker example_pool))))
     = Waiting"
proof -
  let ?r = "run failing_callback ''monitors'' example_worker (offset_tracker example_pool)"
  have h1: "\<not> shutdown example_worker"
    by (simp add: example_worker_def)
  have h2: "?r = (fst ?r, fst (snd ?r), fst (snd (snd ?r)), snd (snd (snd ?r)))"
    by simp
  have h3: "\<forall>work_item \<in> set (queue_items (work_queue example_worker)).
      callback_caught failing_callback ''monitors'' (result work_item)"
    by (simp add: example_worker_def example_item_def callback_caught_def failing_callback_def
        isinstance_Exception_def)
  have q: "dequeued_items failing_callback ''monitors'' (queue_items (work_queue example_worker))
             = queue_items (work_queue example_worker)"
    using worker_completes_each_dequeued_offset [OF h1 h2] h3 by blast
  have "filter is_dequeue_or_complete (fst ?r) =
          concat (map dequeue_then_complete (queue_items (work_queue example_worker)))"
    using worker_completes_each_dequeued_offset [OF h1 h2] q by simp
  also have "\<dots> = [Dequeued 0 5, CompleteOffsetCalled 0 5, Dequeued 0 6, CompleteOffsetCalled 0 6]"
    by (simp add: example_worker_def example_item_def dequeue_then_complete_def)
  finally have evs: "filter is_dequeue_or_complete (fst ?r) =
      [Dequeued 0 5, CompleteOffsetCalled 0 5, Dequeued 0 6, CompleteOffsetCalled 0 6]" .
  have "snd (snd (snd ?r)) = Waiting"
    using worker_completes_each_dequeued_offset [OF h1 h2] h3
    by (simp add: example_worker_def)
  moreover have "map result (queue_items (work_queue example_worker)) = [1, 0]"
    by (simp add: example_worker_def example_item_def)
  moreover have "callback_caught failing_callback ''monitors'' 1"
    and "callback_caught failing_callback ''monitors'' 0"
    by (simp_all add: callback_caught_def failing_callback_def isinstance_Exception_def)
  ultimately show ?thesis using h1 evs by blast
qed

text \<open>
  C5 as stated fails for a callback that raises an exception that is no \<^verbatim>\<open>Exception\<close>:
  \<^verbatim>\<open>except Exception\<close> does not catch \<open>SystemExit\<close>, so after the \<^verbatim>\<open>finally\<close> block has
  completed the offset, the exception leaves \<^verbatim>\<open>run\<close> and the second item stays in the
  queue.
\<close>

theorem base_exception_ends_worker:
  "snd (snd (snd (run exiting_callback ''monitors'' example_worker (offset_tracker example_pool))))
     = Died SystemExit \<and>
   queue_items (work_queue
     (fst (snd (run exiting_callback ''monitors'' example_worker (offset_tracker example_pool)))))
     = [example_item 0 6] \<and>
   fst (run exiting_callback ''monitors'' example_worker (offset_tracker example_pool))
     = [Dequeued 0 5, Processed 1, CompleteOffsetCalled 0 5]"
  by (simp add: run_def example_worker_def example_item_def exiting_callback_def
      isinstance_Exception_def Let_def)

section \<open>Flushing\<close>

lemma drain_all: "drain xs c = ([], c + length xs)"
  by (induction xs arbitrary: c) simp_all

lemma clear_queues_all:
  "clear_queues qs c = (map (\<lambda>q. q\<lparr>queue_items := []\<rparr>) qs, c + sum_list (map qsize qs))"
  by (induction qs arbitrary: c) (simp_all add: drain_all qsize_def)

lemma clear_is_init [simp]: "clear (s :: 'p OffsetTracker) = OffsetTracker_init"
  by (simp add: clear_def OffsetTracker_init_def)

lemma wait_loop_zero_pending:
  "total_items \<noteq> 0 \<Longrightarrow> \<exists>t \<in> set ts. start_time \<le> t \<Longrightarrow>
     wait_loop start_time 0 total_items ts = Some False"
  by (induction ts) auto

lemma wait_loop_returns:
  "(total_items = 0 \<and> ts \<noteq> []) \<or> (\<exists>t \<in> set ts. d \<le> t - start_time) \<Longrightarrow>
     wait_loop start_time d total_items ts \<noteq> None"
  by (induction ts) auto

text \<open>
  C8. With items pending in the lanes and a clock that reaches its start reading again,
  \<^verbatim>\<open>flush(timeout=0)\<close> returns \<open>False\<close> and leaves the pool with every lane queue empty and
  the tracker in its initial state (no admitted or outstanding offset, no checkpoint, no
  lock); nothing else of the pool changes, and no callback is called.
\<close>

theorem flush_timeout_zero_discards_pending:
  assumes "snd (get_stats pool) \<noteq> 0"
    and "\<exists>t \<in> set ts. start_time \<le> t"
  shows "flush (start_time # ts) pool (Some 0) =
           Some (pool\<lparr>queues := map (\<lambda>q. q\<lparr>queue_items := []\<rparr>) (queues pool),
                      offset_tracker := OffsetTracker_init\<rparr>, False)"
  using wait_loop_zero_pending [OF assms]
  by (simp add: flush_def wait_until_empty_def clear_queues_all)

text \<open>
  C8, an instance: one item waits in lane 0.
\<close>

theorem flush_timeout_zero_discards_pending_witness:
  "snd (get_stats pending_pool) \<noteq> 0 \<and> (\<exists>t \<in> set [10::real]. 10 \<le> t) \<and>
   queue_items (queues pending_pool ! 0) = [example_item 0 5] \<and>
   flush [10, 10] pending_pool (Some 0) =
     Some (pending_pool\<lparr>queues := map (\<lambda>q. q\<lparr>queue_items := []\<rparr>) (queues pending_pool),
                        offset_tracker := OffsetTracker_init\<rparr>, False)"
proof -
  have p: "queues pending_pool =
      [\<lparr>queue_items = [example_item 0 5], is_shutdown = False\<rparr>, Queue_init, Queue_init]"
    by (simp add: pending_pool_def example_pool_def example_item_def FixedQueuePool_submit_def
        FixedQueuePool_update_assignments_def FixedQueuePool_init_def update_assignments_def
        add_offset_def get_queue_for_group_def list_index_def put_def Queue_init_def Let_def
        numeral_3_eq_3)
  then have h1: "snd (get_stats pending_pool) \<noteq> 0"
    by (simp add: get_stats_def qsize_def Queue_init_def)
  have h2: "\<exists>t \<in> set [10::real]. 10 \<le> t"
    by simp
  from flush_timeout_zero_discards_pending [OF h1 h2] h1 h2 p show ?thesis
    by simp
qed

lemma init_after_call:
  "\<not> is_assignment c \<Longrightarrow> after_call OffsetTracker_init c = (OffsetTracker_init :: 'p OffsetTracker)"
  by (cases c)
    (simp_all add: is_assignment_def add_offset_def complete_offset_def mark_committed_def
      get_committable_offsets_def OffsetTracker_init_def clear_def)

lemma init_after_calls:
  "\<forall>c \<in> set cs. \<not> is_assignment c \<Longrightarrow>
     after_calls OffsetTracker_init cs = (OffsetTracker_init :: 'p OffsetTracker)"
  unfolding after_calls_def
  by (induction cs) (simp_all add: init_after_call)

lemma init_committable:
  "get_committable_offsets (OffsetTracker_init :: 'p OffsetTracker) = (OffsetTracker_init, Inr [])"
  by (simp add: get_committable_offsets_def OffsetTracker_init_def)

lemma flush_returns: "clock_suffices clock pool timeout \<Longrightarrow> flush clock pool timeout \<noteq> None"
proof (cases timeout)
  case None
  then show ?thesis by (simp add: flush_def)
next
  case (Some d)
  assume "clock_suffices clock pool timeout"
  with Some obtain start_time ts where clock: "clock = start_time # ts"
    and "(snd (get_stats pool) = 0 \<and> ts \<noteq> []) \<or> (\<exists>t \<in> set ts. d \<le> t - start_time)"
    by (auto simp: clock_suffices_def split: list.splits)
  then have "wait_loop start_time d (snd (get_stats pool)) ts \<noteq> None"
    by (simp add: wait_loop_returns)
  with Some clock show ?thesis
    by (auto simp: flush_def wait_until_empty_def)
qed

lemma flush_tracker:
  "flush clock pool timeout = Some (pool', success) \<Longrightarrow> offset_tracker pool' = OffsetTracker_init"
  by (auto simp: flush_def Let_def split: option.splits if_splits)

text \<open>
  C9. \<^verbatim>\<open>flush\<close> returns under every timeout once the clock suffices, and whenever it
  returns, with success or without, the tracker is in its initial state; from then on,
  until partitions are assigned again, \<^verbatim>\<open>get_committable_offsets\<close> returns the empty
  mapping after any calls, so the commit loop hands over nothing.
\<close>

theorem flush_always_clears_tracker:
  "(clock_suffices clock pool timeout \<longrightarrow> flush clock pool timeout \<noteq> None) \<and>
   (flush clock pool timeout = Some (pool', success) \<longrightarrow>
      offset_tracker pool' = OffsetTracker_init \<and>
      (\<forall>cs. (\<forall>c \<in> set cs. \<not> is_assignment c) \<longrightarrow>
         get_committable_offsets (after_calls (offset_tracker pool') cs) = (OffsetTracker_init, Inr [])))"
  using flush_returns [of clock pool timeout] flush_tracker [of clock pool timeout pool' success]
  by (auto simp: init_after_calls init_committable)

lemma completed_pool_state:
  "offset_tracker completed_pool =
     \<lparr>all_offsets = [(0, {5})], outstanding = [(0, {})], last_committed = [],
      partition_locks = {0}\<rparr> \<and>
   queues completed_pool = [Queue_init, Queue_init, Queue_init]"
  by (simp add: completed_pool_def example_pool_def FixedQueuePool_update_assignments_def
      FixedQueuePool_init_def update_assignments_def clear_def OffsetTracker_init_def
      add_offset_def complete_offset_def dict_get_def numeral_3_eq_3)

text \<open>
  C9, an instance: offset 5 is completed and committable, the queues are empty and the
  flush succeeds within its timeout; the tracker is cleared all the same.
\<close>

theorem flush_always_clears_tracker_witness:
  "clock_suffices [0, 1] completed_pool (Some 5) \<and>
   snd (get_committable_offsets (offset_tracker completed_pool)) = Inr [(0, 5)] \<and>
   (\<exists>pool'. flush [0, 1] completed_pool (Some 5) = Some (pool', True) \<and>
      offset_tracker pool' = OffsetTracker_init \<and>
      get_committable_offsets
        (after_calls (offset_tracker pool') [AddOffset 0 6, CompleteOffset 0 6, GetCommittableOffsets])
        = (OffsetTracker_init, Inr []))"
proof -
  have empty: "snd (get_stats completed_pool) = 0"
    by (simp add: completed_pool_state get_stats_def qsize_def Queue_init_def)
  then have h: "clock_suffices [0, 1] completed_pool (Some 5)"
    by (simp add: clock_suffices_def)
  have before: "snd (get_committable_offsets (offset_tracker completed_pool)) = Inr [(0, 5)]"
    by (simp add: completed_pool_state get_committable_offsets_def dict_get_def
        defaultdict_touch_def partition_committable_def Let_def)
  from empty obtain pool' where f: "flush [0, 1] completed_pool (Some 5) = Some (pool', True)"
    by (simp add: flush_def wait_until_empty_def)
  have calls: "\<forall>c \<in> set [AddOffset (0::nat) 6, CompleteOffset 0 6, GetCommittableOffsets].
      \<not> is_assignment c"
    by (simp add: is_assignment_def)
  from flush_always_clears_tracker [of "[0, 1]" completed_pool "Some 5" pool' True] f calls
  have "offset_tracker pool' = OffsetTracker_init \<and>
      get_committable_offsets
        (after_calls (offset_tracker pool') [AddOffset 0 6, CompleteOffset 0 6, GetCommittableOffsets])
        = (OffsetTracker_init, Inr [])"
    by blast
  with h before f show ?thesis by blast
qed

section \<open>The unassigned partition in the ingress path\<close>

lemma submit_recovery_unprotected:
  assumes "\<not> shutdown_event st" and "decoder st (payload msg) = Inl e"
    and "isinstance_Exception e" and "msg_value msg = BrokerValue p off"
    and "p \<notin> partition_locks (offset_tracker (queue_pool st))"
  shows "submit hash st msg = (st, Some UnassignedPartitionError)"
  using assms by (simp add: submit_def submit_except_def add_offset_def)

lemma submit_skip_path_recovers:
  assumes "\<not> shutdown_event st" and "decoder st (payload msg) = Inr None"
    and "msg_value msg = BrokerValue p off"
    and "p \<notin> partition_locks (offset_tracker (queue_pool st))"
  shows "submit hash st msg = (st, None)"
  using assms by (simp add: submit_def add_offset_def)

lemma submit_normal_path_recovers:
  assumes "\<not> shutdown_event st" and "decoder st (payload msg) = Inr (Some r)"
    and "grouping_fn st r = Inr group_key" and "msg_value msg = BrokerValue p off"
    and "p \<notin> partition_locks (offset_tracker (queue_pool st))"
  shows "submit hash st msg = (st, None)"
  using assms by (simp add: submit_def FixedQueuePool_submit_def add_offset_def)

text \<open>
  C2 fails on the code. The decoder raises for a message of a partition that is not
  assigned: the \<^verbatim>\<open>except Exception\<close> block calls \<^verbatim>\<open>add_offset\<close> outside any \<^verbatim>\<open>try\<close>, and
  \<open>UnassignedPartitionError\<close> leaves \<^verbatim>\<open>submit\<close>. The other two paths recover, as the two
  lemmas above say.
\<close>

theorem submit_recovery_raises_unassigned:
  "submit (\<lambda>group_key. 0) raising_strategy unassigned_message =
     (raising_strategy, Some UnassignedPartitionError)"
  by (simp add: submit_def submit_except_def raising_strategy_def unassigned_message_def
      example_pool_def FixedQueuePool_update_assignments_def update_assignments_def
      add_offset_def isinstance_Exception_def)

end
